theory Spec2Isabelle
  imports Complex_Main
begin

section \<open>Numbers, matrices and failures\<close>

text \<open>
  The function \<open>gdc\<close> of \<open>gdc_demo.ipynb\<close> works on \<open>scipy.sparse\<close> matrices of
  \<open>float64\<close>. The embedding idealises a finite float as a \<^typ>\<open>real\<close>: rounding,
  overflow and the sign of zero are not modelled, so every equation between finite values
  below is one of exact arithmetic. What floating point adds beyond that is kept: a division
  by zero or the square root of a negative number does not raise in numpy, it yields
  \<open>inf\<close>, \<open>-inf\<close> or \<open>nan\<close>, and the computation goes on.

  A matrix is a function from row and column index to its entry, read at indices below its
  dimension only. The argument \<open>A\<close> carries its shape, as a \<open>csr_matrix\<close> does.
\<close>

datatype fl = Fin real | PInf | NInf | NaN

type_synonym matrix = "nat \<Rightarrow> nat \<Rightarrow> real"

type_synonym fl_matrix = "nat \<Rightarrow> nat \<Rightarrow> fl"

record csr_matrix =
  shape :: "nat \<times> nat"
  entry :: "nat \<Rightarrow> nat \<Rightarrow> real"

text \<open>
  \<open>ValueError\<close>, \<open>RuntimeError\<close> and \<open>AttributeError\<close> are the exceptions the calls of
  \<open>gdc\<close> can raise: \<open>ValueError\<close> from \<open>sp.eye(N) + A\<close> on inconsistent shapes and from
  scipy on a matrix with no row; \<open>RuntimeError\<close> from the sparse LU factorisation behind
  \<open>sp.linalg.inv\<close> on an exactly singular matrix; \<open>AttributeError\<close> from \<open>S.multiply\<close>
  where \<open>S\<close> is no sparse matrix. \<open>NonFinite\<close> is no exception: it marks that the matrix
  handed to \<open>sp.linalg.inv\<close> holds an \<open>inf\<close> or a \<open>nan\<close>, where the solver's answer is
  outside this model.
\<close>

datatype failure = ValueError | RuntimeError | AttributeError | NonFinite

fun is_fin :: "fl \<Rightarrow> bool" where
  "is_fin (Fin x) = True"
| "is_fin _ = False"

text \<open>The value of a finite float; it is read under a test of \<open>is_fin\<close> only.\<close>

fun fin_val :: "fl \<Rightarrow> real" where
  "fin_val (Fin x) = x"
| "fin_val _ = 0"

text \<open>The arithmetic of IEEE 754 on the special values.\<close>

fun fl_add :: "fl \<Rightarrow> fl \<Rightarrow> fl" where
  "fl_add (Fin a) (Fin b) = Fin (a + b)"
| "fl_add NaN _ = NaN"
| "fl_add _ NaN = NaN"
| "fl_add PInf NInf = NaN"
| "fl_add NInf PInf = NaN"
| "fl_add PInf _ = PInf"
| "fl_add _ PInf = PInf"
| "fl_add NInf _ = NInf"
| "fl_add _ NInf = NInf"

fun fl_mul :: "fl \<Rightarrow> fl \<Rightarrow> fl" where
  "fl_mul (Fin a) (Fin b) = Fin (a * b)"
| "fl_mul NaN _ = NaN"
| "fl_mul _ NaN = NaN"
| "fl_mul PInf (Fin b) = (if 0 < b then PInf else if b < 0 then NInf else NaN)"
| "fl_mul NInf (Fin b) = (if 0 < b then NInf else if b < 0 then PInf else NaN)"
| "fl_mul (Fin a) PInf = (if 0 < a then PInf else if a < 0 then NInf else NaN)"
| "fl_mul (Fin a) NInf = (if 0 < a then NInf else if a < 0 then PInf else NaN)"
| "fl_mul PInf PInf = PInf"
| "fl_mul NInf NInf = PInf"
| "fl_mul PInf NInf = NInf"
| "fl_mul NInf PInf = NInf"

text \<open>
  True division of numpy: a zero divisor gives \<open>inf\<close>, \<open>-inf\<close> or \<open>nan\<close> with a warning,
  never an exception.
\<close>

fun fl_div :: "fl \<Rightarrow> fl \<Rightarrow> fl" where
  "fl_div (Fin a) (Fin b) =
     (if b \<noteq> 0 then Fin (a / b)
      else if 0 < a then PInf else if a < 0 then NInf else NaN)"
| "fl_div NaN _ = NaN"
| "fl_div _ NaN = NaN"
| "fl_div (Fin a) PInf = Fin 0"
| "fl_div (Fin a) NInf = Fin 0"
| "fl_div PInf (Fin b) = (if 0 \<le> b then PInf else NInf)"
| "fl_div NInf (Fin b) = (if 0 \<le> b then NInf else PInf)"
| "fl_div PInf PInf = NaN"
| "fl_div PInf NInf = NaN"
| "fl_div NInf PInf = NaN"
| "fl_div NInf NInf = NaN"

fun fl_sum :: "nat \<Rightarrow> (nat \<Rightarrow> fl) \<Rightarrow> fl" where
  "fl_sum 0 f = Fin 0"
| "fl_sum (Suc n) f = fl_add (fl_sum n f) (f n)"

text \<open>\<open>1 / np.sqrt(d)\<close>: \<open>inf\<close> at \<open>d = 0\<close>, \<open>nan\<close> at \<open>d < 0\<close>.\<close>

definition fl_inv_sqrt :: "real \<Rightarrow> fl" where
  "fl_inv_sqrt d = (if 0 < d then Fin (1 / sqrt d) else if d = 0 then PInf else NaN)"

text \<open>
  One entry of \<open>D_loop_invsqrt @ A_loop @ D_loop_invsqrt\<close>. The product of sparse matrices
  touches stored entries only, and \<open>A_loop\<close> stores no zero (the sparse sum drops them):
  where \<open>A_loop\<close> is zero the product is zero whatever the scaling factors are, elsewhere
  the entry is multiplied by the factor of its row, then by the factor of its column.
\<close>

definition scaled_entry :: "fl \<Rightarrow> real \<Rightarrow> fl \<Rightarrow> fl" where
  "scaled_entry a x b = (if x = 0 then Fin 0 else fl_mul (fl_mul a (Fin x)) b)"

definition eye :: "nat \<Rightarrow> matrix" where
  "eye N = (\<lambda>i j. if i = j then 1 else 0)"

text \<open>\<open>M.sum(0).A1\<close>: the sums of the columns.\<close>

definition col_sums :: "nat \<Rightarrow> matrix \<Rightarrow> nat \<Rightarrow> real" where
  "col_sums N M = (\<lambda>j. \<Sum>i<N. M i j)"

subsection \<open>The inverse of a sparse matrix\<close>

text \<open>
  \<open>sp.linalg.inv\<close> belongs to scipy, not to the repository. In exact arithmetic it returns
  the inverse of a nonsingular matrix and raises \<open>RuntimeError\<close> on a singular one. It is
  modelled by Gauss-Jordan elimination on the pair of the matrix and the identity; the
  pivot is the first nonzero entry of the column, the choice of pivot having no influence on
  an exact result. \<open>None\<close> is the exception. The inverse of a matrix being unique
  (\<open>inverse_unique\<close> below), nothing proved of the result depends on the method of
  elimination. For a matrix with one row scipy returns the inverse as a one-dimensional
  array holding the one value: the value is what \<open>linalg_inv\<close> gives, and that it is no
  sparse matrix is written into \<open>gdc\<close> below.
\<close>

definition swap_rows :: "nat \<Rightarrow> nat \<Rightarrow> matrix \<Rightarrow> matrix" where
  "swap_rows k p M = (\<lambda>i. if i = k then M p else if i = p then M k else M i)"

definition scale_row :: "nat \<Rightarrow> real \<Rightarrow> matrix \<Rightarrow> matrix" where
  "scale_row k c M = (\<lambda>i j. if i = k then M k j / c else M i j)"

definition eliminate :: "nat \<Rightarrow> (nat \<Rightarrow> real) \<Rightarrow> matrix \<Rightarrow> matrix" where
  "eliminate k f M = (\<lambda>i j. if i = k then M k j else M i j - f i * M k j)"

definition gj_step :: "nat \<Rightarrow> nat \<Rightarrow> matrix \<times> matrix \<Rightarrow> (matrix \<times> matrix) option" where
  "gj_step N k MX =
     (case find (\<lambda>p. fst MX p k \<noteq> 0) [k..<N] of
        None \<Rightarrow> None
      | Some p \<Rightarrow>
          let M1 = swap_rows k p (fst MX); X1 = swap_rows k p (snd MX);
              c = M1 k k;
              M2 = scale_row k c M1; X2 = scale_row k c X1;
              f = (\<lambda>i. M2 i k)
          in Some (eliminate k f M2, eliminate k f X2))"

fun gj_sweep :: "nat \<Rightarrow> nat \<Rightarrow> matrix \<times> matrix \<Rightarrow> (matrix \<times> matrix) option" where
  "gj_sweep N 0 MX = Some MX"
| "gj_sweep N (Suc k) MX =
     (case gj_sweep N k MX of None \<Rightarrow> None | Some MX' \<Rightarrow> gj_step N k MX')"

definition linalg_inv :: "nat \<Rightarrow> matrix \<Rightarrow> matrix option" where
  "linalg_inv N M = map_option snd (gj_sweep N N (M, eye N))"

section \<open>The function \<open>gdc\<close>\<close>

text \<open>
  The stages follow the source line by line and keep its names.

  Self-loops, \<open>A_loop = sp.eye(N) + A\<close> with \<open>N = A.shape[0]\<close>:
\<close>

definition A_loop_of :: "nat \<Rightarrow> csr_matrix \<Rightarrow> matrix" where
  "A_loop_of N A = (\<lambda>i j. eye N i j + entry A i j)"

text \<open>The symmetric transition matrix \<open>T_sym\<close>, from the column sums of \<open>A_loop\<close>:\<close>

definition sym_transition :: "nat \<Rightarrow> matrix \<Rightarrow> fl_matrix" where
  "sym_transition N A_loop =
     (let D_loop_vec = col_sums N A_loop;
          D_loop_vec_invsqrt = (\<lambda>j. fl_inv_sqrt (D_loop_vec j))
      in (\<lambda>i j. scaled_entry (D_loop_vec_invsqrt i) (A_loop i j) (D_loop_vec_invsqrt j)))"

text \<open>
  The first lines of \<open>gdc\<close>, up to \<open>T_sym\<close>. The sum \<open>sp.eye(N) + A\<close> raises
  \<open>ValueError\<close> unless \<open>A\<close> is \<open>N\<close> by \<open>N\<close>; nothing else is checked.
\<close>

definition transition_builder :: "csr_matrix \<Rightarrow> failure + fl_matrix" where
  "transition_builder A =
     (let N = fst (shape A)
      in if shape A \<noteq> (N, N) then Inl ValueError
         else Inr (sym_transition N (A_loop_of N A)))"

text \<open>\<open>S = alpha * sp.linalg.inv(sp.eye(N) - (1 - alpha) * T_sym)\<close>:\<close>

definition ppr :: "nat \<Rightarrow> real \<Rightarrow> fl_matrix \<Rightarrow> failure + matrix" where
  "ppr N alpha T_sym =
     (if \<exists>i<N. \<exists>j<N. \<not> is_fin (T_sym i j) then Inl NonFinite
      else case linalg_inv N (\<lambda>i j. eye N i j - (1 - alpha) * fin_val (T_sym i j)) of
             None \<Rightarrow> Inl RuntimeError
           | Some X \<Rightarrow> Inr (\<lambda>i j. alpha * X i j))"

definition diffusion :: "csr_matrix \<Rightarrow> real \<Rightarrow> failure + matrix" where
  "diffusion A alpha =
     (case transition_builder A of
        Inl e \<Rightarrow> Inl e
      | Inr T_sym \<Rightarrow> ppr (fst (shape A)) alpha T_sym)"

text \<open>\<open>S_tilde = S.multiply(S >= eps)\<close>: the entry times the truth value of the comparison.\<close>

definition sparsify :: "real \<Rightarrow> matrix \<Rightarrow> matrix" where
  "sparsify eps S = (\<lambda>i j. S i j * (if eps \<le> S i j then 1 else 0))"

text \<open>
  \<open>D_tilde_vec = S_tilde.sum(0).A1\<close> and \<open>T_S = S_tilde / D_tilde_vec\<close>. scipy divides a
  sparse matrix by a dense vector as \<open>S_tilde.multiply(1 / D_tilde_vec)\<close>: the reciprocal of
  every column sum is taken first (\<open>inf\<close> for a sum of zero, with a warning), and each
  stored entry is multiplied by the reciprocal of its column. \<open>S_tilde\<close> stores its nonzero
  entries; an entry that is zero is not stored and stays zero, whatever the reciprocal is.
  There is no other statement between the sum and the division. (Releases of scipy before
  1.11 divided the dense matrix entry by entry, which turns a zero entry of a column with
  sum zero into \<open>nan\<close>; the embedding follows the current behaviour.)
\<close>

definition renormalize :: "nat \<Rightarrow> fl_matrix \<Rightarrow> fl_matrix" where
  "renormalize N S_tilde =
     (let D_tilde_vec = (\<lambda>j. fl_sum N (\<lambda>i. S_tilde i j));
          recip = (\<lambda>j. fl_div (Fin 1) (D_tilde_vec j))
      in (\<lambda>i j. if S_tilde i j = Fin 0 then Fin 0 else fl_mul (S_tilde i j) (recip j)))"

text \<open>The returned matrix is listed row by row, an entry that is not stored as zero.\<close>

definition to_dense :: "nat \<Rightarrow> (nat \<Rightarrow> nat \<Rightarrow> 'a) \<Rightarrow> 'a list list" where
  "to_dense N F = map (\<lambda>i. map (\<lambda>j. F i j) [0..<N]) [0..<N]"

text \<open>
  The whole function. Two sizes never reach the last lines: on a matrix with no row scipy
  raises \<open>ValueError\<close>, and on a matrix with one row \<open>sp.linalg.inv\<close> returns a
  one-dimensional array, so that \<open>S\<close> has no method \<open>multiply\<close> and \<open>S.multiply(S >= eps)\<close>
  raises \<open>AttributeError\<close>, whatever the value in the array is.
\<close>

definition gdc :: "csr_matrix \<Rightarrow> real \<Rightarrow> real \<Rightarrow> failure + fl list list" where
  "gdc A alpha eps =
     (let N = fst (shape A)
      in if N = 0 then Inl ValueError
         else case transition_builder A of
           Inl e \<Rightarrow> Inl e
         | Inr T_sym \<Rightarrow>
             if N = 1 then Inl AttributeError
             else (case ppr N alpha T_sym of
                Inl e \<Rightarrow> Inl e
              | Inr S \<Rightarrow>
                  Inr (to_dense N (renormalize N (\<lambda>i j. Fin (sparsify eps S i j))))))"

text \<open>The sum of column \<open>j\<close> of a returned matrix.\<close>

definition column_sum :: "fl list list \<Rightarrow> nat \<Rightarrow> fl" where
  "column_sum G j = fl_sum (length G) (\<lambda>i. G ! i ! j)"

text \<open>The value of an entry of \<open>T_sym\<close>, read where the entry is finite.\<close>

definition T_val :: "csr_matrix \<Rightarrow> matrix" where
  "T_val A = (\<lambda>i j. fin_val (sym_transition (fst (shape A)) (A_loop_of (fst (shape A)) A) i j))"

subsection \<open>Adjacency matrices\<close>

text \<open>What the specification asks of an adjacency matrix: square, non-negative, symmetric.\<close>

definition is_square :: "csr_matrix \<Rightarrow> bool" where
  "is_square A = (snd (shape A) = fst (shape A))"

definition is_nonneg :: "csr_matrix \<Rightarrow> bool" where
  "is_nonneg A = (\<forall>i<fst (shape A). \<forall>j<fst (shape A). 0 \<le> entry A i j)"

definition is_symmetric :: "csr_matrix \<Rightarrow> bool" where
  "is_symmetric A = (\<forall>i<fst (shape A). \<forall>j<fst (shape A). entry A i j = entry A j i)"

definition of_rows :: "real list list \<Rightarrow> csr_matrix" where
  "of_rows rows =
     \<lparr>shape = (length rows, if rows = [] then 0 else length (hd rows)),
      entry = (\<lambda>i j. rows ! i ! j)\<rparr>"

text \<open>
  Two nodes joined by one edge; one node without an edge; one node with a loop of weight
  \<open>-1\<close>.
\<close>

definition K2 :: csr_matrix where
  "K2 = of_rows [[0, 1], [1, 0]]"


definition A_neg :: csr_matrix where
  "A_neg = of_rows [[-1]]"

text \<open>A malformed input: the second column of \<open>A + I\<close> sums to zero.\<close>

definition A_bad :: csr_matrix where
  "A_bad = of_rows [[0, 1], [0, -2]]"

subsection \<open>The specification's closed form\<close>



text \<open>\<open>B\<close> is the inverse of \<open>M\<close>, both \<open>N\<close> by \<open>N\<close>.\<close>

definition inverse_of :: "nat \<Rightarrow> matrix \<Rightarrow> matrix \<Rightarrow> bool" where
  "inverse_of N M B =
     (\<forall>i<N. \<forall>j<N. (\<Sum>l<N. B i l * M l j) = eye N i j \<and> (\<Sum>l<N. M i l * B l j) = eye N i j)"


section \<open>Gauss-Jordan elimination computes a left inverse\<close>

text \<open>
  Three facts are carried along the sweep over the columns: the second matrix times the
  input is the first matrix; the columns already treated are those of the identity; and a
  vector annihilated by the first matrix is annihilated by the input. The last one shows
  that the sweep can only stop on a singular input.
\<close>

lemma swap_rows_prod:
  assumes "\<forall>i<N. \<forall>j<N. (\<Sum>l<N. X i l * A l j) = M i j" "k < N" "p < N"
  shows "\<forall>i<N. \<forall>j<N. (\<Sum>l<N. swap_rows k p X i l * A l j) = swap_rows k p M i j"
  using assms by (simp add: swap_rows_def)

lemma scale_row_prod:
  assumes "\<forall>i<N. \<forall>j<N. (\<Sum>l<N. X i l * A l j) = M i j" "k < N"
  shows "\<forall>i<N. \<forall>j<N. (\<Sum>l<N. scale_row k c X i l * A l j) = scale_row k c M i j"
  using assms by (simp add: scale_row_def sum_divide_distrib [symmetric])

lemma eliminate_prod:
  assumes "\<forall>i<N. \<forall>j<N. (\<Sum>l<N. X i l * A l j) = M i j" "k < N"
  shows "\<forall>i<N. \<forall>j<N. (\<Sum>l<N. eliminate k f X i l * A l j) = eliminate k f M i j"
  using assms
  by (simp add: eliminate_def left_diff_distrib sum_subtractf mult.assoc sum_distrib_left [symmetric])

lemma swap_rows_ker:
  assumes "\<forall>i<N. (\<Sum>j<N. swap_rows k p M i j * v j) = 0" "k < N" "p < N"
  shows "\<forall>i<N. (\<Sum>j<N. M i j * v j) = 0"
proof (intro allI impI)
  fix i assume i: "i < N"
  have "(\<Sum>j<N. swap_rows k p M (if i = k then p else if i = p then k else i) j * v j) = 0"
    using assms i by simp
  then show "(\<Sum>j<N. M i j * v j) = 0"
    by (simp add: swap_rows_def split: if_splits)
qed

lemma scale_row_ker:
  assumes "\<forall>i<N. (\<Sum>j<N. scale_row k c M i j * v j) = 0" "c \<noteq> 0"
  shows "\<forall>i<N. (\<Sum>j<N. M i j * v j) = 0"
proof (intro allI impI)
  fix i assume i: "i < N"
  from assms i have "(\<Sum>j<N. scale_row k c M i j * v j) = 0" by simp
  then show "(\<Sum>j<N. M i j * v j) = 0"
    using \<open>c \<noteq> 0\<close>
    by (cases "i = k") (simp_all add: scale_row_def sum_divide_distrib [symmetric])
qed

lemma eliminate_ker:
  assumes "\<forall>i<N. (\<Sum>j<N. eliminate k f M i j * v j) = 0" "k < N"
  shows "\<forall>i<N. (\<Sum>j<N. M i j * v j) = 0"
proof (intro allI impI)
  fix i assume i: "i < N"
  from assms have k: "(\<Sum>j<N. M k j * v j) = 0"
    by (auto simp: eliminate_def dest!: spec [of _ k])
  from assms i have "(\<Sum>j<N. eliminate k f M i j * v j) = 0" by simp
  then show "(\<Sum>j<N. M i j * v j) = 0"
    using k
    by (cases "i = k")
      (simp_all add: eliminate_def left_diff_distrib sum_subtractf mult.assoc sum_distrib_left [symmetric])
qed


lemma gj_step_SomeD:
  assumes "gj_step N k (M, X) = Some (M', X')"
  obtains p where "k \<le> p" "p < N" "M p k \<noteq> 0"
    "M' = eliminate k (\<lambda>i. scale_row k (M p k) (swap_rows k p M) i k)
            (scale_row k (M p k) (swap_rows k p M))"
    "X' = eliminate k (\<lambda>i. scale_row k (M p k) (swap_rows k p M) i k)
            (scale_row k (M p k) (swap_rows k p X))"
proof -
  from assms obtain p where f: "find (\<lambda>p. M p k \<noteq> 0) [k..<N] = Some p"
    by (auto simp: gj_step_def split: option.splits)
  then have "k \<le> p" "p < N" "M p k \<noteq> 0"
    by (auto simp: find_Some_iff)
  moreover have "swap_rows k p M k k = M p k"
    by (simp add: swap_rows_def)
  ultimately show thesis
    using assms f that [of p] by (simp add: gj_step_def Let_def)
qed

lemma unit_cols_step:
  assumes "\<forall>i<N. \<forall>j<k. M i j = (if i = j then 1 else 0)"
    and "k \<le> p" "p < N" "M p k \<noteq> 0"
  shows "\<forall>i<N. \<forall>j<Suc k.
           eliminate k (\<lambda>i. scale_row k (M p k) (swap_rows k p M) i k)
             (scale_row k (M p k) (swap_rows k p M)) i j = (if i = j then 1 else 0)"
proof (intro allI impI)
  fix i j assume i: "i < N" and j: "j < Suc k"
  have kN: "k < N" using assms by simp
  show "eliminate k (\<lambda>i. scale_row k (M p k) (swap_rows k p M) i k)
          (scale_row k (M p k) (swap_rows k p M)) i j = (if i = j then 1 else 0)"
  proof (cases "j = k")
    case True
    then show ?thesis
      using assms(4) by (simp add: eliminate_def scale_row_def swap_rows_def)
  next
    case False
    with j have jk: "j < k" by simp
    have "M p j = 0" "M k j = 0" "M i j = (if i = j then 1 else 0)"
      using assms jk i kN by auto
    then show ?thesis
      using jk assms(2) by (auto simp: eliminate_def scale_row_def swap_rows_def)
  qed
qed

lemma no_pivot_kernel:
  fixes M :: matrix
  assumes unit: "\<forall>i<N. \<forall>j<k. M i j = (if i = j then 1 else 0)"
    and kN: "k < N"
    and none: "\<forall>p. k \<le> p \<and> p < N \<longrightarrow> M p k = 0"
  shows "\<exists>v. (\<forall>i<N. (\<Sum>j<N. M i j * v j) = 0) \<and> v k = (1::real)"
proof -
  define v where "v = (\<lambda>j. if j < k then - M j k else if j = k then 1 else 0)"
  have "(\<Sum>j<N. M i j * v j) = 0" if i: "i < N" for i
  proof -
    have "(\<Sum>j<N. M i j * v j) = (\<Sum>j<k. M i j * v j) + (\<Sum>j = k..<N. M i j * v j)"
      using kN sum.atLeastLessThan_concat [where m = 0 and n = k and p = N and g = "\<lambda>j. M i j * v j"]
      by (simp add: lessThan_atLeast0)
    moreover have "(\<Sum>j<k. M i j * v j) = (\<Sum>j<k. if i = j then - M i k else 0)"
      using unit i by (intro sum.cong) (auto simp: v_def)
    moreover have "(\<Sum>j<k. if i = j then - M i k else 0) = (if i < k then - M i k else 0)"
      by simp
    moreover have "(\<Sum>j = k..<N. M i j * v j) = (\<Sum>j = k..<N. if j = k then M i k else 0)"
      by (intro sum.cong) (auto simp: v_def)
    moreover have "(\<Sum>j = k..<N. if j = k then M i k else 0) = M i k"
      using kN by simp
    ultimately show ?thesis
      using none i by (cases "i < k") auto
  qed
  moreover have "v k = 1" by (simp add: v_def)
  ultimately show ?thesis by blast
qed


lemma eye_prod: "i < N \<Longrightarrow> (\<Sum>l<N. eye N i l * A l j) = A i j"
proof -
  assume i: "i < N"
  have "(\<Sum>l<N. eye N i l * A l j) = (\<Sum>l<N. if i = l then A l j else 0)"
    by (intro sum.cong) (auto simp: eye_def)
  also have "\<dots> = A i j" using i by simp
  finally show ?thesis .
qed

lemma gj_step_inv:
  assumes step: "gj_step N k (M, X) = Some (M', X')" and kN: "k < N"
    and prod: "\<forall>i<N. \<forall>j<N. (\<Sum>l<N. X i l * A l j) = M i j"
    and unit: "\<forall>i<N. \<forall>j<k. M i j = (if i = j then 1 else 0)"
    and ker: "\<forall>v. (\<forall>i<N. (\<Sum>j<N. M i j * v j) = 0) \<longrightarrow> (\<forall>i<N. (\<Sum>j<N. A i j * v j) = 0)"
  shows "(\<forall>i<N. \<forall>j<N. (\<Sum>l<N. X' i l * A l j) = M' i j)
       \<and> (\<forall>i<N. \<forall>j<Suc k. M' i j = (if i = j then 1 else 0))
       \<and> (\<forall>v. (\<forall>i<N. (\<Sum>j<N. M' i j * v j) = 0) \<longrightarrow> (\<forall>i<N. (\<Sum>j<N. A i j * v j) = 0))"
proof -
  from step obtain p where p: "k \<le> p" "p < N" "M p k \<noteq> 0"
    and M': "M' = eliminate k (\<lambda>i. scale_row k (M p k) (swap_rows k p M) i k)
            (scale_row k (M p k) (swap_rows k p M))"
    and X': "X' = eliminate k (\<lambda>i. scale_row k (M p k) (swap_rows k p M) i k)
            (scale_row k (M p k) (swap_rows k p X))"
    by (rule gj_step_SomeD)
  have "\<forall>i<N. \<forall>j<N. (\<Sum>l<N. X' i l * A l j) = M' i j"
    unfolding M' X'
    by (intro eliminate_prod scale_row_prod swap_rows_prod prod kN p)
  moreover have "\<forall>i<N. \<forall>j<Suc k. M' i j = (if i = j then 1 else 0)"
    unfolding M' by (rule unit_cols_step [OF unit p])
  moreover have "\<forall>i<N. (\<Sum>j<N. A i j * v j) = 0"
    if "\<forall>i<N. (\<Sum>j<N. M' i j * v j) = 0" for v
  proof -
    from that have "\<forall>i<N. (\<Sum>j<N. scale_row k (M p k) (swap_rows k p M) i j * v j) = 0"
      unfolding M' by (rule eliminate_ker [OF _ kN])
    then have "\<forall>i<N. (\<Sum>j<N. swap_rows k p M i j * v j) = 0"
      by (rule scale_row_ker [OF _ p(3)])
    then have "\<forall>i<N. (\<Sum>j<N. M i j * v j) = 0"
      by (rule swap_rows_ker [OF _ kN p(2)])
    with ker show ?thesis by blast
  qed
  ultimately show ?thesis by blast
qed

lemma gj_sweep_inv:
  assumes "gj_sweep N k (A, eye N) = Some (M, X)" and "k \<le> N"
  shows "(\<forall>i<N. \<forall>j<N. (\<Sum>l<N. X i l * A l j) = M i j)
       \<and> (\<forall>i<N. \<forall>j<k. M i j = (if i = j then 1 else 0))
       \<and> (\<forall>v. (\<forall>i<N. (\<Sum>j<N. M i j * v j) = 0) \<longrightarrow> (\<forall>i<N. (\<Sum>j<N. A i j * v j) = 0))"
  using assms
proof (induction k arbitrary: M X)
  case 0
  then show ?case by (auto simp: eye_prod)
next
  case (Suc k)
  from Suc.prems(1) obtain M0 X0 where
    sweep: "gj_sweep N k (A, eye N) = Some (M0, X0)" and step: "gj_step N k (M0, X0) = Some (M, X)"
    by (auto split: option.splits)
  from Suc.prems(2) have kN: "k < N" "k \<le> N" by simp_all
  from Suc.IH [OF sweep kN(2)] show ?case
    by (intro gj_step_inv [OF step kN(1)]) blast+
qed

lemma gj_sweep_total:
  assumes inj: "\<forall>v. (\<forall>i<N. (\<Sum>j<N. A i j * v j) = 0) \<longrightarrow> (\<forall>j<N. v j = 0)" and "k \<le> N"
  shows "\<exists>M X. gj_sweep N k (A, eye N) = Some (M, X)"
  using assms(2)
proof (induction k)
  case 0
  then show ?case by simp
next
  case (Suc k)
  then have kN: "k < N" "k \<le> N" by simp_all
  from Suc.IH [OF kN(2)] obtain M X where sweep: "gj_sweep N k (A, eye N) = Some (M, X)"
    by blast
  note I = gj_sweep_inv [OF sweep kN(2)]
  have "\<exists>p. k \<le> p \<and> p < N \<and> M p k \<noteq> 0"
  proof (rule ccontr)
    assume "\<not> ?thesis"
    then have "\<forall>p. k \<le> p \<and> p < N \<longrightarrow> M p k = 0" by blast
    with I kN(1) obtain v where v: "\<forall>i<N. (\<Sum>j<N. M i j * v j) = 0" "v k = 1"
      using no_pivot_kernel [of N k M] by blast
    with I have "\<forall>i<N. (\<Sum>j<N. A i j * v j) = 0" by blast
    with inj kN(1) have "v k = 0" by blast
    with v(2) show False by simp
  qed
  then have "find (\<lambda>p. M p k \<noteq> 0) [k..<N] \<noteq> None"
    by (auto simp: find_None_iff)
  then show ?case
    using sweep by (auto simp: gj_step_def Let_def)
qed

lemma linalg_inv_left:
  assumes "linalg_inv N A = Some X" and "i < N" "j < N"
  shows "(\<Sum>l<N. X i l * A l j) = (if i = j then 1 else 0)"
proof -
  from assms(1) obtain M where "gj_sweep N N (A, eye N) = Some (M, X)"
    by (auto simp: linalg_inv_def)
  from gj_sweep_inv [OF this] assms(2,3) show ?thesis by simp
qed

lemma linalg_inv_total:
  assumes "\<forall>v. (\<forall>i<N. (\<Sum>j<N. A i j * v j) = 0) \<longrightarrow> (\<forall>j<N. v j = 0)"
  shows "\<exists>X. linalg_inv N A = Some X"
  using gj_sweep_total [OF assms, of N] by (auto simp: linalg_inv_def)

section \<open>The matrix inverted by \<open>gdc\<close>\<close>

text \<open>
  With \<open>a\<close> non-negative, \<open>d\<close> its column sums and \<open>0 \<le> c < 1\<close>, the matrix
  \<open>I - c D^(-1/2) a D^(-1/2)\<close> has a trivial kernel, and a row vector that it maps to a
  non-negative vector is non-negative.
\<close>

lemma eye_dot: "i < N \<Longrightarrow> (\<Sum>j<N. eye N i j * v j) = v i"
proof -
  assume i: "i < N"
  have "(\<Sum>j<N. eye N i j * v j) = (\<Sum>j<N. if i = j then v j else 0)"
    by (intro sum.cong) (auto simp: eye_def)
  also have "\<dots> = v i" using i by simp
  finally show ?thesis .
qed

lemma dot_eye: "j < N \<Longrightarrow> (\<Sum>l<N. x l * eye N l j) = x j"
proof -
  assume j: "j < N"
  have "(\<Sum>l<N. x l * eye N l j) = (\<Sum>l<N. if l = j then x l else 0)"
    by (intro sum.cong) (auto simp: eye_def)
  also have "\<dots> = x j" using j by simp
  finally show ?thesis .
qed

lemma ppr_kernel_trivial:
  fixes a :: matrix and v :: "nat \<Rightarrow> real"
  assumes nonneg: "\<forall>i<N. \<forall>j<N. 0 \<le> a i j"
    and dpos: "\<forall>j<N. 0 < (\<Sum>i<N. a i j)"
    and c: "0 \<le> c" "c < 1"
    and ker: "\<forall>i<N. (\<Sum>j<N. (eye N i j
                 - c * (1 / sqrt (\<Sum>l<N. a l i) * a i j * (1 / sqrt (\<Sum>l<N. a l j)))) * v j) = 0"
  shows "\<forall>j<N. v j = 0"
proof -
  define d where "d = (\<lambda>j. \<Sum>i<N. a i j)"
  define s where "s = (\<lambda>j. sqrt (d j))"
  define u where "u = (\<lambda>j. v j / s j)"
  have spos: "0 < s j" if "j < N" for j
    using dpos that by (simp add: s_def d_def)
  have ss: "s j * s j = d j" if "j < N" for j
    using dpos that by (simp add: s_def d_def less_imp_le)
  have dpos': "0 < d j" if "j < N" for j
    using dpos that by (simp add: d_def)
  have eq1: "v i = c * (\<Sum>j<N. 1 / s i * a i j * (1 / s j) * v j)" if i: "i < N" for i
  proof -
    have "(\<Sum>j<N. (eye N i j - c * (1 / s i * a i j * (1 / s j))) * v j)
        = (\<Sum>j<N. eye N i j * v j) - c * (\<Sum>j<N. 1 / s i * a i j * (1 / s j) * v j)"
      by (simp add: left_diff_distrib sum_subtractf sum_distrib_left mult.assoc)
    moreover have "(\<Sum>j<N. (eye N i j - c * (1 / s i * a i j * (1 / s j))) * v j) = 0"
      using ker i by (simp add: s_def d_def)
    ultimately show ?thesis
      using i by (simp add: eye_dot)
  qed
  have eq2: "d i * u i = c * (\<Sum>j<N. a i j * u j)" if i: "i < N" for i
  proof -
    have "d i * u i = s i * v i"
      using ss [OF i] spos [OF i] by (simp add: u_def field_simps)
    also have "\<dots> = s i * (c * (\<Sum>j<N. 1 / s i * a i j * (1 / s j) * v j))"
      using eq1 [OF i] by simp
    also have "\<dots> = c * (s i * (\<Sum>j<N. 1 / s i * a i j * (1 / s j) * v j))"
      by (rule mult.left_commute)
    also have "s i * (\<Sum>j<N. 1 / s i * a i j * (1 / s j) * v j)
             = (\<Sum>j<N. s i * (1 / s i * a i j * (1 / s j) * v j))"
      by (rule sum_distrib_left)
    also have "\<dots> = (\<Sum>j<N. a i j * u j)"
      using spos [OF i] by (intro sum.cong) (auto simp: u_def)
    finally show ?thesis .
  qed
  have le: "d i * \<bar>u i\<bar> \<le> c * (\<Sum>j<N. a i j * \<bar>u j\<bar>)" if i: "i < N" for i
  proof -
    have "d i * \<bar>u i\<bar> = \<bar>d i * u i\<bar>"
      using dpos' [OF i] by (simp add: abs_mult)
    also have "\<dots> = c * \<bar>\<Sum>j<N. a i j * u j\<bar>"
      using eq2 [OF i] c by (simp add: abs_mult)
    also have "\<dots> \<le> c * (\<Sum>j<N. \<bar>a i j * u j\<bar>)"
      using c by (intro mult_left_mono sum_abs) simp
    also have "(\<Sum>j<N. \<bar>a i j * u j\<bar>) = (\<Sum>j<N. a i j * \<bar>u j\<bar>)"
      using nonneg i by (intro sum.cong) (auto simp: abs_mult)
    finally show ?thesis .
  qed
  define W where "W = (\<Sum>i<N. d i * \<bar>u i\<bar>)"
  have "W \<le> (\<Sum>i<N. c * (\<Sum>j<N. a i j * \<bar>u j\<bar>))"
    unfolding W_def using le by (intro sum_mono) simp
  also have "\<dots> = c * (\<Sum>i<N. \<Sum>j<N. a i j * \<bar>u j\<bar>)"
    by (rule sum_distrib_left [symmetric])
  also have "(\<Sum>i<N. \<Sum>j<N. a i j * \<bar>u j\<bar>) = (\<Sum>j<N. \<Sum>i<N. a i j * \<bar>u j\<bar>)"
    by (rule sum.swap)
  also have "(\<Sum>j<N. \<Sum>i<N. a i j * \<bar>u j\<bar>) = W"
    by (simp add: W_def d_def sum_distrib_right)
  finally have "W \<le> c * W" .
  moreover have W0: "0 \<le> W"
    unfolding W_def using dpos' by (intro sum_nonneg) (simp add: less_imp_le)
  ultimately have "W = 0"
    using c by (smt (verit, best) mult_left_le_one_le mult_less_cancel_right2)
  then have "\<forall>i\<in>{..<N}. d i * \<bar>u i\<bar> = 0"
    unfolding W_def using dpos'
    by (subst (asm) sum_nonneg_eq_0_iff) (simp_all add: less_imp_le)
  then have "d j * \<bar>u j\<bar> = 0" if "j < N" for j
    using that by simp
  then have "v j = 0" if "j < N" for j
    using dpos' [OF that] spos [OF that] that by (fastforce simp: u_def)
  then show ?thesis by blast
qed

lemma ppr_row_nonneg:
  fixes a :: matrix and x :: "nat \<Rightarrow> real"
  assumes nonneg: "\<forall>i<N. \<forall>j<N. 0 \<le> a i j"
    and diag: "\<forall>j<N. 1 \<le> a j j"
    and dpos: "\<forall>j<N. 0 < (\<Sum>i<N. a i j)"
    and c: "0 \<le> c" "c < 1"
    and r: "\<forall>j<N. 0 \<le> r j"
    and row: "\<forall>j<N. (\<Sum>l<N. x l * (eye N l j
                 - c * (1 / sqrt (\<Sum>k<N. a k l) * a l j * (1 / sqrt (\<Sum>k<N. a k j))))) = r j"
  shows "\<forall>j<N. 0 \<le> x j"
proof (cases "N = 0")
  case True
  then show ?thesis by simp
next
  case False
  define d where "d = (\<lambda>j. \<Sum>i<N. a i j)"
  define s where "s = (\<lambda>j. sqrt (d j))"
  define z where "z = (\<lambda>j. x j / s j)"
  have spos: "0 < s j" if "j < N" for j
    using dpos that by (simp add: s_def d_def)
  have ss: "s j * s j = d j" if "j < N" for j
    using dpos that by (simp add: s_def d_def less_imp_le)
  have eq1: "x j - c * (\<Sum>l<N. x l * (1 / s l * a l j * (1 / s j))) = r j" if j: "j < N" for j
  proof -
    have "(\<Sum>l<N. x l * (eye N l j - c * (1 / s l * a l j * (1 / s j))))
        = (\<Sum>l<N. x l * eye N l j) - c * (\<Sum>l<N. x l * (1 / s l * a l j * (1 / s j)))"
      by (simp add: right_diff_distrib sum_subtractf sum_distrib_left mult.left_commute)
    moreover have "(\<Sum>l<N. x l * (eye N l j - c * (1 / s l * a l j * (1 / s j)))) = r j"
      using row j by (simp add: s_def d_def)
    ultimately show ?thesis
      using j by (simp add: dot_eye)
  qed
  have eq2: "(\<Sum>l<N. a l j * (z j - c * z l)) = r j * s j" if j: "j < N" for j
  proof -
    have "(\<Sum>l<N. a l j * (z j - c * z l)) = d j * z j - c * (\<Sum>l<N. a l j * z l)"
      by (simp add: right_diff_distrib sum_subtractf sum_distrib_left sum_distrib_right
          d_def mult.left_commute)
    also have "d j * z j = s j * x j"
      using ss [OF j] spos [OF j] by (simp add: z_def field_simps)
    also have "(\<Sum>l<N. a l j * z l) = s j * (\<Sum>l<N. x l * (1 / s l * a l j * (1 / s j)))"
    proof -
      have "s j * (\<Sum>l<N. x l * (1 / s l * a l j * (1 / s j)))
          = (\<Sum>l<N. s j * (x l * (1 / s l * a l j * (1 / s j))))"
        by (rule sum_distrib_left)
      also have "\<dots> = (\<Sum>l<N. a l j * z l)"
        using spos [OF j] by (intro sum.cong) (auto simp: z_def)
      finally show ?thesis by simp
    qed
    also have "s j * x j - c * (s j * (\<Sum>l<N. x l * (1 / s l * a l j * (1 / s j))))
             = s j * (x j - c * (\<Sum>l<N. x l * (1 / s l * a l j * (1 / s j))))"
      by (simp add: right_diff_distrib mult.left_commute)
    also have "\<dots> = r j * s j"
      using eq1 [OF j] by simp
    finally show ?thesis .
  qed
  have "finite (z ` {..<N})" "z ` {..<N} \<noteq> {}"
    using False by auto
  then have "Min (z ` {..<N}) \<in> z ` {..<N}" by (rule Min_in)
  then obtain m where m: "m < N" "z m = Min (z ` {..<N})" by auto
  have zmin: "z m \<le> z l" if "l < N" for l
    using that m(2) by simp
  have "0 \<le> z m"
  proof (rule ccontr)
    assume "\<not> 0 \<le> z m"
    then have neg: "z m < 0" by simp
    have nonpos: "a l m * (z m - c * z l) \<le> 0" if l: "l < N" for l
    proof -
      have "c * z m \<le> c * z l"
        using zmin [OF l] c by (intro mult_left_mono) simp_all
      moreover have "z m \<le> c * z m"
        using neg c by (simp add: mult_le_cancel_right2)
      ultimately have "z m - c * z l \<le> 0" by simp
      then show ?thesis
        using nonneg l m(1) by (simp add: mult_nonneg_nonpos)
    qed
    have "(\<Sum>l<N. a l m * (z m - c * z l))
        = a m m * (z m - c * z m) + (\<Sum>l\<in>{..<N} - {m}. a l m * (z m - c * z l))"
      using m(1) by (intro sum.remove) simp_all
    moreover have "(\<Sum>l\<in>{..<N} - {m}. a l m * (z m - c * z l)) \<le> 0"
      using nonpos by (intro sum_nonpos) simp
    moreover have "a m m * (z m - c * z m) < 0"
    proof -
      have "z m - c * z m = (1 - c) * z m" by (simp add: algebra_simps)
      moreover have "(1 - c) * z m < 0"
        using neg c by (simp add: mult_pos_neg)
      moreover have "0 < a m m" using diag m(1) by (smt (verit))
      ultimately show ?thesis by (simp add: mult_pos_neg)
    qed
    ultimately have "(\<Sum>l<N. a l m * (z m - c * z l)) < 0" by simp
    moreover have "0 \<le> r m * s m"
      using r m(1) spos [OF m(1)] by simp
    ultimately show False
      using eq2 [OF m(1)] by simp
  qed
  then have "0 \<le> x j" if "j < N" for j
  proof -
    have "0 \<le> z j" using \<open>0 \<le> z m\<close> zmin [OF that] by simp
    then show ?thesis
      using spos [OF that] by (simp add: z_def zero_le_divide_iff)
  qed
  then show ?thesis by blast
qed

section \<open>The stages on an adjacency matrix\<close>

lemma fl_sum_Fin: "fl_sum N (\<lambda>i. Fin (f i)) = Fin (\<Sum>i<N. f i)"
  by (induction N) simp_all

lemma fl_sum_cong: "(\<And>i. i < N \<Longrightarrow> f i = g i) \<Longrightarrow> fl_sum N f = fl_sum N g"
  by (induction N) simp_all

lemma fl_add_not_fin: "\<not> is_fin y \<Longrightarrow> \<not> is_fin (fl_add x y)"
  by (cases x; cases y) simp_all

lemma fl_add_not_fin_left: "\<not> is_fin x \<Longrightarrow> \<not> is_fin (fl_add x y)"
  by (cases x; cases y) simp_all

lemma fl_sum_zero_or_not_fin:
  assumes "\<And>i. i < N \<Longrightarrow> f i = Fin 0 \<or> \<not> is_fin (f i)"
  shows "fl_sum N f = Fin 0 \<or> \<not> is_fin (fl_sum N f)"
  using assms
proof (induction N)
  case 0
  then show ?case by simp
next
  case (Suc N)
  then have IH: "fl_sum N f = Fin 0 \<or> \<not> is_fin (fl_sum N f)" by simp
  from Suc.prems have "f N = Fin 0 \<or> \<not> is_fin (f N)" by simp
  with IH show ?case
    by (auto simp: fl_add_not_fin fl_add_not_fin_left)
qed

lemma fl_sum_not_one:
  assumes "\<And>i. i < N \<Longrightarrow> f i = Fin 0 \<or> \<not> is_fin (f i)"
  shows "fl_sum N f \<noteq> Fin 1"
proof -
  have "fl_sum N f = Fin 0 \<or> \<not> is_fin (fl_sum N f)"
    by (rule fl_sum_zero_or_not_fin) (rule assms)
  then show ?thesis by auto
qed

lemma length_to_dense: "length (to_dense N F) = N"
  by (simp add: to_dense_def)

lemma nth_to_dense: "i < N \<Longrightarrow> j < N \<Longrightarrow> to_dense N F ! i ! j = F i j"
  by (simp add: to_dense_def)

lemma column_sum_to_dense:
  assumes "j < N"
  shows "column_sum (to_dense N F) j = fl_sum N (\<lambda>i. F i j)"
  unfolding column_sum_def length_to_dense
  using assms by (intro fl_sum_cong) (simp add: nth_to_dense)

lemma renormalize_finite:
  "renormalize N (\<lambda>i j. Fin (S i j)) i j =
     (if S i j = 0 then Fin 0
      else fl_mul (Fin (S i j)) (fl_div (Fin 1) (Fin (\<Sum>k<N. S k j))))"
  by (simp add: renormalize_def fl_sum_Fin)

lemma renormalize_nonzero_sum:
  "(\<Sum>k<N. S k j) \<noteq> 0 \<Longrightarrow>
     renormalize N (\<lambda>i j. Fin (S i j)) i j = Fin (S i j / (\<Sum>k<N. S k j))"
  by (simp add: renormalize_finite)

lemma renormalize_zero_sum:
  "(\<Sum>k<N. S k j) = 0 \<Longrightarrow>
     renormalize N (\<lambda>i j. Fin (S i j)) i j =
       (if S i j = 0 then Fin 0 else if 0 < S i j then PInf else NInf)"
  by (simp add: renormalize_finite)

text \<open>Where the size allows it, \<open>gdc\<close> is the last two stages after \<open>diffusion\<close>.\<close>

lemma gdc_diffusion:
  assumes "2 \<le> fst (shape A)"
  shows "gdc A alpha eps =
    (case diffusion A alpha of
       Inl e \<Rightarrow> Inl e
     | Inr S \<Rightarrow>
         Inr (to_dense (fst (shape A))
               (renormalize (fst (shape A)) (\<lambda>i j. Fin (sparsify eps S i j)))))"
  using assms by (simp add: gdc_def diffusion_def Let_def split: sum.splits)

lemma sparsify_eq: "sparsify eps S i j = (if eps \<le> S i j then S i j else 0)"
  by (simp add: sparsify_def)

text \<open>Facts about a square non-negative matrix.\<close>

lemma shape_square: "is_square A \<Longrightarrow> shape A = (fst (shape A), fst (shape A))"
  by (simp add: is_square_def prod_eq_iff)

lemma A_loop_nonneg:
  "is_nonneg A \<Longrightarrow> i < fst (shape A) \<Longrightarrow> j < fst (shape A) \<Longrightarrow> 0 \<le> A_loop_of (fst (shape A)) A i j"
  by (simp add: is_nonneg_def A_loop_of_def eye_def)

lemma A_loop_diag:
  "is_nonneg A \<Longrightarrow> j < fst (shape A) \<Longrightarrow> 1 \<le> A_loop_of (fst (shape A)) A j j"
  by (simp add: is_nonneg_def A_loop_of_def eye_def)

lemma degree_ge_1:
  assumes "is_nonneg A" and "j < fst (shape A)"
  shows "1 \<le> col_sums (fst (shape A)) (A_loop_of (fst (shape A)) A) j"
proof -
  let ?N = "fst (shape A)" and ?a = "A_loop_of (fst (shape A)) A"
  have "?a j j \<le> (\<Sum>i\<in>{..<?N}. ?a i j)"
    using assms by (intro member_le_sum) (auto simp: A_loop_nonneg)
  with A_loop_diag [OF assms] show ?thesis
    by (simp add: col_sums_def)
qed

lemma sym_transition_finite:
  assumes "is_nonneg A" and "i < fst (shape A)" "j < fst (shape A)"
  shows "sym_transition (fst (shape A)) (A_loop_of (fst (shape A)) A) i j =
    Fin (1 / sqrt (\<Sum>l<fst (shape A). A_loop_of (fst (shape A)) A l i)
          * A_loop_of (fst (shape A)) A i j
          * (1 / sqrt (\<Sum>l<fst (shape A). A_loop_of (fst (shape A)) A l j)))"
  using degree_ge_1 [OF assms(1,2)] degree_ge_1 [OF assms(1,3)]
  by (simp add: sym_transition_def Let_def fl_inv_sqrt_def col_sums_def scaled_entry_def)

lemma T_val_eq:
  assumes "is_nonneg A" and "i < fst (shape A)" "j < fst (shape A)"
  shows "T_val A i j =
    1 / sqrt (\<Sum>l<fst (shape A). A_loop_of (fst (shape A)) A l i)
      * A_loop_of (fst (shape A)) A i j
      * (1 / sqrt (\<Sum>l<fst (shape A). A_loop_of (fst (shape A)) A l j))"
  by (simp add: T_val_def sym_transition_finite [OF assms])

lemma T_val_nonneg:
  assumes "is_nonneg A" and "i < fst (shape A)" "j < fst (shape A)"
  shows "0 \<le> T_val A i j"
proof -
  have "0 \<le> (\<Sum>l<fst (shape A). A_loop_of (fst (shape A)) A l i)"
       "0 \<le> (\<Sum>l<fst (shape A). A_loop_of (fst (shape A)) A l j)"
    using degree_ge_1 [OF assms(1,2)] degree_ge_1 [OF assms(1,3)] by (simp_all add: col_sums_def)
  with A_loop_nonneg [OF assms] show ?thesis
    unfolding T_val_eq [OF assms] by (intro mult_nonneg_nonneg divide_nonneg_nonneg) simp_all
qed

lemma transition_builder_square:
  "is_square A \<Longrightarrow>
     transition_builder A = Inr (sym_transition (fst (shape A)) (A_loop_of (fst (shape A)) A))"
  using shape_square [of A] by (simp add: transition_builder_def Let_def)

lemma diffusion_returns:
  assumes sq: "is_square A" and nn: "is_nonneg A" and alpha: "0 < alpha" "alpha \<le> 1"
  obtains X where
    "diffusion A alpha = Inr (\<lambda>i j. alpha * X i j)"
    "\<forall>i<fst (shape A). \<forall>j<fst (shape A).
       (\<Sum>l<fst (shape A). X i l * (eye (fst (shape A)) l j - (1 - alpha) * T_val A l j))
         = eye (fst (shape A)) i j"
proof -
  define N where "N = fst (shape A)"
  define a where "a = A_loop_of N A"
  define M where "M = (\<lambda>i j. eye N i j - (1 - alpha) * T_val A i j)"
  have dpos: "\<forall>j<N. 0 < (\<Sum>i<N. a i j)"
    using degree_ge_1 [OF nn] by (auto simp: N_def a_def col_sums_def intro: less_le_trans [of 0 1])
  have a0: "\<forall>i<N. \<forall>j<N. 0 \<le> a i j"
    using A_loop_nonneg [OF nn] by (simp add: N_def a_def)
  have t: "T_val A i j = 1 / sqrt (\<Sum>l<N. a l i) * a i j * (1 / sqrt (\<Sum>l<N. a l j))"
    if "i < N" "j < N" for i j
    using T_val_eq [OF nn, of i j] that by (simp add: N_def a_def)
  have inj: "\<forall>v. (\<forall>i<N. (\<Sum>j<N. M i j * v j) = 0) \<longrightarrow> (\<forall>j<N. v j = 0)"
  proof (intro allI impI)
    fix v :: "nat \<Rightarrow> real" and j
    assume ker: "\<forall>i<N. (\<Sum>j<N. M i j * v j) = 0" and j: "j < N"
    have "\<forall>i<N. (\<Sum>j<N. (eye N i j
            - (1 - alpha) * (1 / sqrt (\<Sum>l<N. a l i) * a i j * (1 / sqrt (\<Sum>l<N. a l j)))) * v j) = 0"
    proof (intro allI impI)
      fix i assume i: "i < N"
      have "(\<Sum>j<N. (eye N i j
            - (1 - alpha) * (1 / sqrt (\<Sum>l<N. a l i) * a i j * (1 / sqrt (\<Sum>l<N. a l j)))) * v j)
          = (\<Sum>j<N. M i j * v j)"
        using i by (intro sum.cong) (simp_all add: M_def t)
      with ker i show "(\<Sum>j<N. (eye N i j
            - (1 - alpha) * (1 / sqrt (\<Sum>l<N. a l i) * a i j * (1 / sqrt (\<Sum>l<N. a l j)))) * v j) = 0"
        by simp
    qed
    from ppr_kernel_trivial [OF a0 dpos _ _ this] alpha j show "v j = 0"
      by simp
  qed
  then obtain X where X: "linalg_inv N M = Some X"
    using linalg_inv_total [of N M] by blast
  have fin: "\<not> (\<exists>i<N. \<exists>j<N. \<not> is_fin (sym_transition N (A_loop_of N A) i j))"
    using sym_transition_finite [OF nn] by (auto simp: N_def)
  have "diffusion A alpha = Inr (\<lambda>i j. alpha * X i j)"
    using X fin
    by (simp add: diffusion_def transition_builder_square [OF sq] ppr_def M_def T_val_def
        N_def [symmetric])
  moreover have "\<forall>i<N. \<forall>j<N. (\<Sum>l<N. X i l * (eye N l j - (1 - alpha) * T_val A l j)) = eye N i j"
    using linalg_inv_left [OF X] by (simp add: M_def eye_def)
  ultimately show thesis
    using that by (simp add: N_def)
qed

lemma left_inverse_nonneg:
  assumes nn: "is_nonneg A" and alpha: "0 < alpha" "alpha \<le> 1"
    and inv: "\<forall>i<fst (shape A). \<forall>j<fst (shape A).
       (\<Sum>l<fst (shape A). X i l * (eye (fst (shape A)) l j - (1 - alpha) * T_val A l j))
         = eye (fst (shape A)) i j"
    and i: "i < fst (shape A)"
  shows "\<forall>j<fst (shape A). 0 \<le> X i j" and "1 \<le> X i i"
proof -
  define N where "N = fst (shape A)"
  define a where "a = A_loop_of N A"
  have dpos: "\<forall>j<N. 0 < (\<Sum>i<N. a i j)"
    using degree_ge_1 [OF nn] by (auto simp: N_def a_def col_sums_def intro: less_le_trans [of 0 1])
  have a0: "\<forall>i<N. \<forall>j<N. 0 \<le> a i j"
    using A_loop_nonneg [OF nn] by (simp add: N_def a_def)
  have a1: "\<forall>j<N. 1 \<le> a j j"
    using A_loop_diag [OF nn] by (simp add: N_def a_def)
  have t: "T_val A l j = 1 / sqrt (\<Sum>k<N. a k l) * a l j * (1 / sqrt (\<Sum>k<N. a k j))"
    if "l < N" "j < N" for l j
    using T_val_eq [OF nn, of l j] that by (simp add: N_def a_def)
  have iN: "i < N" using i by (simp add: N_def)
  have row: "\<forall>j<N. (\<Sum>l<N. X i l * (eye N l j
       - (1 - alpha) * (1 / sqrt (\<Sum>k<N. a k l) * a l j * (1 / sqrt (\<Sum>k<N. a k j))))) = eye N i j"
  proof (intro allI impI)
    fix j assume j: "j < N"
    have "(\<Sum>l<N. X i l * (eye N l j
       - (1 - alpha) * (1 / sqrt (\<Sum>k<N. a k l) * a l j * (1 / sqrt (\<Sum>k<N. a k j)))))
       = (\<Sum>l<N. X i l * (eye N l j - (1 - alpha) * T_val A l j))"
      using j by (intro sum.cong) (simp_all add: t)
    with inv iN j show "(\<Sum>l<N. X i l * (eye N l j
       - (1 - alpha) * (1 / sqrt (\<Sum>k<N. a k l) * a l j * (1 / sqrt (\<Sum>k<N. a k j))))) = eye N i j"
      by (simp add: N_def)
  qed
  have r: "\<forall>j<N. 0 \<le> eye N i j" by (simp add: eye_def)
  have "\<forall>j<N. 0 \<le> X i j"
    using ppr_row_nonneg [OF a0 a1 dpos _ _ r row] alpha by simp
  then show nonneg: "\<forall>j<fst (shape A). 0 \<le> X i j" by (simp add: N_def)
  have "(\<Sum>l<N. X i l * (eye N l i - (1 - alpha) * T_val A l i))
      = (\<Sum>l<N. X i l * eye N l i) - (1 - alpha) * (\<Sum>l<N. X i l * T_val A l i)"
    by (simp add: right_diff_distrib sum_subtractf sum_distrib_left mult.left_commute)
  moreover have "(\<Sum>l<N. X i l * (eye N l i - (1 - alpha) * T_val A l i)) = 1"
    using inv iN by (simp add: N_def eye_def)
  moreover have "(\<Sum>l<N. X i l * eye N l i) = X i i"
    using iN by (rule dot_eye)
  moreover have "0 \<le> (\<Sum>l<N. X i l * T_val A l i)"
    using nonneg T_val_nonneg [OF nn] iN
    by (intro sum_nonneg mult_nonneg_nonneg) (simp_all add: N_def)
  moreover have "0 \<le> (1 - alpha) * (\<Sum>l<N. X i l * T_val A l i)"
    using calculation(4) alpha by (intro mult_nonneg_nonneg) simp_all
  ultimately show "1 \<le> X i i" by linarith
qed


lemma inverse_unique:
  assumes "inverse_of N M B" and "inverse_of N M B'" and i: "i < N" and j: "j < N"
  shows "B i j = B' i j"
proof -
  have "B i j = (\<Sum>l<N. B i l * eye N l j)"
    using j by (simp add: dot_eye)
  also have "\<dots> = (\<Sum>l<N. B i l * (\<Sum>k<N. M l k * B' k j))"
    using assms(2) j by (intro sum.cong) (simp_all add: inverse_of_def)
  also have "\<dots> = (\<Sum>l<N. \<Sum>k<N. B i l * M l k * B' k j)"
    by (simp add: sum_distrib_left mult.assoc)
  also have "\<dots> = (\<Sum>k<N. \<Sum>l<N. B i l * M l k * B' k j)"
    by (rule sum.swap)
  also have "\<dots> = (\<Sum>k<N. (\<Sum>l<N. B i l * M l k) * B' k j)"
    by (simp add: sum_distrib_right)
  also have "\<dots> = (\<Sum>k<N. eye N i k * B' k j)"
    using assms(1) i by (intro sum.cong) (simp_all add: inverse_of_def)
  also have "\<dots> = B' i j"
    using i by (rule eye_dot)
  finally show ?thesis .
qed



text \<open>A zero degree makes a scaled entry non-finite.\<close>

lemma fl_inv_sqrt_cases:
  "(\<exists>a>0. fl_inv_sqrt d = Fin a) \<or> fl_inv_sqrt d = PInf \<or> fl_inv_sqrt d = NaN"
  by (simp add: fl_inv_sqrt_def)

lemma scaled_not_fin:
  assumes "x \<noteq> 0" and "p = PInf \<or> q = PInf"
    and "(\<exists>a>0. p = Fin a) \<or> p = PInf \<or> p = NaN"
    and "(\<exists>a>0. q = Fin a) \<or> q = PInf \<or> q = NaN"
  shows "\<not> is_fin (fl_mul (fl_mul p (Fin x)) q)"
proof (cases "0 < x")
  case True
  with assms show ?thesis by (auto simp: zero_less_mult_iff)
next
  case False
  with assms(1) have "x < 0" by simp
  with assms show ?thesis by (auto simp: zero_less_mult_iff mult_less_0_iff)
qed

text \<open>The example matrix, and the unfolding that evaluates \<open>gdc\<close> on a concrete input.\<close>

lemma K2_valid: "is_square K2" "is_nonneg K2" "is_symmetric K2"
  by (auto simp: K2_def of_rows_def is_square_def is_nonneg_def is_symmetric_def
      less_Suc_eq numeral_2_eq_2)

lemma K2_shape: "fst (shape K2) = 2"
  by (simp add: K2_def of_rows_def)


lemmas gdc_eval =
  gdc_def diffusion_def transition_builder_def ppr_def of_rows_def
  sym_transition_def A_loop_of_def col_sums_def eye_def fl_inv_sqrt_def scaled_entry_def
  linalg_inv_def
  gj_step_def swap_rows_def scale_row_def eliminate_def renormalize_def sparsify_def
  to_dense_def column_sum_def Let_def eval_nat_numeral upt_rec lessThan_Suc

text \<open>On an adjacency matrix the diffusion stage returns a non-negative matrix whose diagonal is at least \<open>alpha\<close>.\<close>

lemma diffusion_facts:
  assumes sq: "is_square A" and nn: "is_nonneg A" and alpha: "0 < alpha" "alpha \<le> 1"
  obtains S where
    "diffusion A alpha = Inr S"
    "\<forall>i<fst (shape A). \<forall>j<fst (shape A). 0 \<le> S i j"
    "\<forall>i<fst (shape A). alpha \<le> S i i"
proof -
  obtain X where X: "diffusion A alpha = Inr (\<lambda>i j. alpha * X i j)"
    and inv: "\<forall>i<fst (shape A). \<forall>j<fst (shape A).
       (\<Sum>l<fst (shape A). X i l * (eye (fst (shape A)) l j - (1 - alpha) * T_val A l j))
         = eye (fst (shape A)) i j"
    by (rule diffusion_returns [OF assms])
  have "0 \<le> alpha * X i j" if "i < fst (shape A)" "j < fst (shape A)" for i j
    using left_inverse_nonneg(1) [OF nn alpha inv that(1)] that(2) alpha by simp
  moreover have "alpha \<le> alpha * X i i" if "i < fst (shape A)" for i
    using left_inverse_nonneg(2) [OF nn alpha inv that] alpha by simp
  ultimately show thesis
    using X that by blast
qed

section \<open>The claims\<close>




text \<open>
  Claim C2, as the code has it. When a column of the sparsified matrix sums to exactly
  zero, the renormalization has no fallback: \<open>gdc\<close> returns without raising, the diagonal
  entry of that column is not \<open>1.0\<close>, and the column of the returned matrix does not sum
  to \<open>1\<close>.
\<close>

theorem gdc_zero_column_no_fallback:
  assumes "diffusion A alpha = Inr S" and "2 \<le> fst (shape A)" and "j < fst (shape A)"
    and "col_sums (fst (shape A)) (sparsify eps S) j = 0"
  shows "\<exists>G. gdc A alpha eps = Inr G \<and> G ! j ! j \<noteq> Fin 1 \<and> column_sum G j \<noteq> Fin 1"
proof -
  define N where "N = fst (shape A)"
  define R where "R = renormalize N (\<lambda>i j. Fin (sparsify eps S i j))"
  have G: "gdc A alpha eps = Inr (to_dense N R)"
    using assms(1,2) by (simp add: gdc_diffusion R_def N_def)
  have z: "(\<Sum>k<N. sparsify eps S k j) = 0"
    using assms(4) by (simp add: col_sums_def N_def)
  have e: "R i j = Fin 0 \<or> \<not> is_fin (R i j)" for i
    unfolding R_def using z by (simp add: renormalize_zero_sum)
  have j: "j < N" using assms(3) by (simp add: N_def)
  have "to_dense N R ! j ! j \<noteq> Fin 1"
    using e [of j] j by (auto simp: nth_to_dense)
  moreover have "column_sum (to_dense N R) j \<noteq> Fin 1"
    unfolding column_sum_to_dense [OF j] by (rule fl_sum_not_one) (rule e)
  ultimately show ?thesis
    using G by simp
qed

theorem gdc_zero_column_no_fallback_witness:
  "\<exists>G. gdc K2 (1 / 2) (7 / 8) = Inr G \<and> G ! 1 ! 1 \<noteq> Fin 1 \<and> column_sum G 1 \<noteq> Fin 1"
proof -
  have "\<exists>S. diffusion K2 (1 / 2) = Inr S \<and> col_sums 2 (sparsify (7 / 8) S) 1 = 0"
    by (simp add: gdc_eval K2_def)
  then obtain S where S: "diffusion K2 (1 / 2) = Inr S"
    and z: "col_sums (fst (shape K2)) (sparsify (7 / 8) S) 1 = 0"
    by (auto simp: K2_shape)
  have "2 \<le> fst (shape K2)" "1 < fst (shape K2)"
    by (simp_all add: K2_shape)
  from gdc_zero_column_no_fallback [OF S this z] show ?thesis .
qed

text \<open>
  Claim C2 as stated fails on two nodes joined by an edge, with \<open>alpha = 1/2\<close> and
  \<open>eps = 9/10\<close>: \<open>S\<close> has the entries \<open>3/4\<close> and \<open>1/4\<close>, all below \<open>eps\<close>, both
  columns of \<open>S_tilde\<close> are zero, and they stay zero: no diagonal entry is \<open>1.0\<close>.
\<close>

theorem gdc_zero_column_counterexample:
  "gdc K2 (1 / 2) (9 / 10) = Inr [[Fin 0, Fin 0], [Fin 0, Fin 0]]"
  by (simp add: gdc_eval K2_def)

text \<open>
  Claim C3, as the code has it. For a square non-negative \<open>A\<close> with at least two nodes
  and \<open>0 < alpha \<le> 1\<close>, \<open>gdc\<close> returns a matrix in which every column whose sparsified
  sum is not zero sums to exactly \<open>1\<close>, and a column whose sparsified sum is zero does not
  sum to \<open>1\<close>; when \<open>eps \<le> alpha\<close> every column sums to \<open>1\<close>.
\<close>

theorem gdc_columns_sum_to_one:
  assumes "is_square A" and "is_nonneg A" and "0 < alpha" "alpha \<le> 1"
    and "2 \<le> fst (shape A)"
  shows "\<exists>S G. diffusion A alpha = Inr S \<and> gdc A alpha eps = Inr G
           \<and> (\<forall>j<fst (shape A). col_sums (fst (shape A)) (sparsify eps S) j \<noteq> 0
                  \<longrightarrow> column_sum G j = Fin 1)
           \<and> (\<forall>j<fst (shape A). col_sums (fst (shape A)) (sparsify eps S) j = 0
                  \<longrightarrow> column_sum G j \<noteq> Fin 1)
           \<and> (eps \<le> alpha \<longrightarrow> (\<forall>j<fst (shape A). column_sum G j = Fin 1))"
proof -
  define N where "N = fst (shape A)"
  obtain S where S: "diffusion A alpha = Inr S"
    and nonneg: "\<forall>i<N. \<forall>j<N. 0 \<le> S i j" and diag: "\<forall>i<N. alpha \<le> S i i"
    unfolding N_def by (rule diffusion_facts [OF assms(1-4)])
  define R where "R = renormalize N (\<lambda>i j. Fin (sparsify eps S i j))"
  define G where "G = to_dense N R"
  have G: "gdc A alpha eps = Inr G"
    using S assms(5) by (simp add: gdc_diffusion G_def R_def N_def)
  have one: "column_sum G j = Fin 1" if j: "j < N" and cs: "col_sums N (sparsify eps S) j \<noteq> 0" for j
  proof -
    have "column_sum G j = fl_sum N (\<lambda>i. R i j)"
      unfolding G_def by (rule column_sum_to_dense [OF j])
    also have "\<dots> = fl_sum N (\<lambda>i. Fin (sparsify eps S i j / (\<Sum>k<N. sparsify eps S k j)))"
      using cs by (intro fl_sum_cong) (simp add: R_def renormalize_nonzero_sum col_sums_def)
    also have "\<dots> = Fin ((\<Sum>i<N. sparsify eps S i j) / (\<Sum>k<N. sparsify eps S k j))"
      by (simp add: fl_sum_Fin sum_divide_distrib [symmetric])
    also have "\<dots> = Fin 1"
      using cs by (simp add: col_sums_def)
    finally show ?thesis .
  qed
  have notone: "column_sum G j \<noteq> Fin 1" if j: "j < N" and cs: "col_sums N (sparsify eps S) j = 0" for j
  proof -
    have z: "(\<Sum>k<N. sparsify eps S k j) = 0"
      using cs by (simp add: col_sums_def)
    have "R i j = Fin 0 \<or> \<not> is_fin (R i j)" for i
      unfolding R_def using z by (simp add: renormalize_zero_sum)
    then show ?thesis
      unfolding G_def column_sum_to_dense [OF j] by (intro fl_sum_not_one) simp
  qed
  have pos: "col_sums N (sparsify eps S) j \<noteq> 0" if le: "eps \<le> alpha" and j: "j < N" for j
  proof -
    have "sparsify eps S j j \<le> (\<Sum>i\<in>{..<N}. sparsify eps S i j)"
      using j nonneg by (intro member_le_sum) (auto simp: sparsify_eq)
    moreover have "alpha \<le> S j j"
      using diag j by simp
    then have "alpha \<le> sparsify eps S j j"
      using le by (simp add: sparsify_eq)
    ultimately show ?thesis
      using assms(3) by (simp add: col_sums_def)
  qed
  from S G one notone pos show ?thesis
    unfolding N_def by blast
qed

theorem gdc_columns_sum_to_one_witness:
  "\<exists>S G. diffusion K2 (1 / 2) = Inr S \<and> gdc K2 (1 / 2) (1 / 2) = Inr G
         \<and> column_sum G 0 = Fin 1 \<and> column_sum G 1 = Fin 1"
proof -
  have "(0::real) < 1 / 2" "(1::real) / 2 \<le> 1" "2 \<le> fst (shape K2)"
    by (simp_all add: K2_shape)
  from gdc_columns_sum_to_one [OF K2_valid(1,2) this, of "1 / 2", unfolded K2_shape]
  show ?thesis by auto
qed

text \<open>
  Claim C3 as stated fails: with \<open>alpha = 1/2\<close> and \<open>eps = 4/5\<close>, a configuration
  the specification allows, the columns of the result on the two-node graph sum to \<open>0\<close>,
  not to \<open>1\<close>.
\<close>

theorem gdc_columns_counterexample:
  "gdc K2 (1 / 2) (4 / 5) = Inr [[Fin 0, Fin 0], [Fin 0, Fin 0]]
   \<and> column_sum [[Fin 0, Fin 0], [Fin 0, Fin 0]] 0 = Fin 0"
  by (simp add: gdc_eval K2_def)

text \<open>
  Claim C4. The sparsification keeps the entry \<open>S i j\<close> when \<open>eps \<le> S i j\<close>, an entry
  equal to \<open>eps\<close> included, and makes it exactly zero otherwise.
\<close>

theorem sparsify_threshold:
  "(eps \<le> S i j \<longrightarrow> sparsify eps S i j = S i j) \<and> (S i j < eps \<longrightarrow> sparsify eps S i j = 0)"
  by (simp add: sparsify_def)

theorem sparsify_threshold_witness:
  "sparsify (1 / 2) (\<lambda>i j. if i = j then 1 / 2 else 1 / 4) 0 0 = 1 / 2
   \<and> sparsify (1 / 2) (\<lambda>i j. if i = j then 1 / 2 else 1 / 4) 0 1 = 0"
  using sparsify_threshold [of "1 / 2" "\<lambda>i j. if i = j then 1 / 2 else 1 / 4" 0 0]
    sparsify_threshold [of "1 / 2" "\<lambda>i j. if i = j then 1 / 2 else 1 / 4" 0 1]
  by simp

text \<open>
  Claim C5, as the code has it. With \<open>alpha = 1\<close> the diffusion matrix of a square
  non-negative \<open>A\<close> is the identity matrix: \<open>S = 1 * (I - 0 * T)^(-1) = I\<close>.
\<close>

theorem ppr_alpha_one_identity:
  assumes "is_square A" and "is_nonneg A"
  shows "\<exists>S. diffusion A 1 = Inr S
           \<and> (\<forall>i<fst (shape A). \<forall>j<fst (shape A). S i j = eye (fst (shape A)) i j)"
proof -
  obtain X where X: "diffusion A 1 = Inr (\<lambda>i j. 1 * X i j)"
    and inv: "\<forall>i<fst (shape A). \<forall>j<fst (shape A).
       (\<Sum>l<fst (shape A). X i l * (eye (fst (shape A)) l j - (1 - 1) * T_val A l j))
         = eye (fst (shape A)) i j"
    by (rule diffusion_returns [OF assms, of 1]) simp_all
  have "X i j = eye (fst (shape A)) i j" if "i < fst (shape A)" "j < fst (shape A)" for i j
    using inv that dot_eye [OF that(2), of "X i"] by simp
  with X show ?thesis by simp
qed

theorem ppr_alpha_one_identity_witness:
  "\<exists>S. diffusion K2 1 = Inr S \<and> S 0 0 = 1 \<and> S 0 1 = 0"
  using ppr_alpha_one_identity [of K2] K2_valid
  by (auto simp: K2_shape eye_def)

text \<open>
  Claim C5 as stated fails, \<open>S\<close> is not \<open>T\<close>: on the two-node graph \<open>T\<close> has
  \<open>1/2\<close> off the diagonal, where \<open>S\<close> has \<open>0\<close>.
\<close>

theorem ppr_alpha_one_counterexample:
  "\<exists>T S. transition_builder K2 = Inr T \<and> diffusion K2 1 = Inr S
         \<and> T 0 1 = Fin (1 / 2) \<and> S 0 1 = 0"
  by (simp add: gdc_eval K2_def)

text \<open>
  Claim C6, as the code has it. The first stage checks no degree: on every square input
  it returns a matrix and raises nothing. Where a degree of \<open>A + I\<close> is zero the
  reciprocal square root is \<open>inf\<close>, and every entry of \<open>T_sym\<close> in that row or column
  at which \<open>A + I\<close> is not zero is non-finite.
\<close>

theorem transition_builder_no_degree_check:
  assumes "is_square A"
  shows "\<exists>T. transition_builder A = Inr T
           \<and> (\<forall>i j. (col_sums (fst (shape A)) (A_loop_of (fst (shape A)) A) i = 0
                      \<or> col_sums (fst (shape A)) (A_loop_of (fst (shape A)) A) j = 0)
                    \<and> A_loop_of (fst (shape A)) A i j \<noteq> 0
                  \<longrightarrow> \<not> is_fin (T i j))"
proof -
  let ?N = "fst (shape A)"
  let ?a = "A_loop_of ?N A"
  let ?d = "col_sums ?N ?a"
  have "\<not> is_fin (sym_transition ?N ?a i j)"
    if z: "?d i = 0 \<or> ?d j = 0" and x: "?a i j \<noteq> 0" for i j
  proof -
    from z have "fl_inv_sqrt (?d i) = PInf \<or> fl_inv_sqrt (?d j) = PInf"
      by (auto simp: fl_inv_sqrt_def)
    then have "\<not> is_fin (fl_mul (fl_mul (fl_inv_sqrt (?d i)) (Fin (?a i j))) (fl_inv_sqrt (?d j)))"
      by (intro scaled_not_fin x fl_inv_sqrt_cases)
    with x show ?thesis
      by (simp add: sym_transition_def Let_def scaled_entry_def)
  qed
  with transition_builder_square [OF assms] show ?thesis by blast
qed

theorem transition_builder_no_degree_check_witness:
  "\<exists>T. transition_builder A_bad = Inr T \<and> \<not> is_fin (T 0 1)"
proof -
  have "is_square A_bad"
    by (simp add: A_bad_def of_rows_def is_square_def)
  moreover have "fst (shape A_bad) = 2"
    by (simp add: A_bad_def of_rows_def)
  moreover have "col_sums 2 (A_loop_of 2 A_bad) 1 = 0" "A_loop_of 2 A_bad 0 1 \<noteq> 0"
    by (simp_all add: A_bad_def of_rows_def col_sums_def A_loop_of_def eye_def eval_nat_numeral)
  ultimately show ?thesis
    using transition_builder_no_degree_check [of A_bad] by auto
qed

text \<open>
  Claim C6 as stated fails: on the one-node matrix with entry \<open>-1\<close> the degree of
  \<open>A + I\<close> is zero, and the stage returns a matrix.
\<close>

theorem transition_builder_zero_degree_counterexample:
  "\<exists>T. transition_builder A_neg = Inr T \<and> col_sums 1 (A_loop_of 1 A_neg) 0 = 0"
  by (simp add: transition_builder_def A_neg_def of_rows_def col_sums_def A_loop_of_def eye_def
      Let_def)

text \<open>
  Claim C7. For a square non-negative \<open>A\<close> the first stage returns \<open>T\<close>; \<open>T\<close> is
  symmetric if and only if \<open>A\<close> is, and every diagonal entry of \<open>A + I\<close> is at least
  \<open>1\<close>.
\<close>

theorem transition_symmetric_iff:
  assumes "is_square A" and "is_nonneg A"
  shows "\<exists>T. transition_builder A = Inr T
           \<and> ((\<forall>i<fst (shape A). \<forall>j<fst (shape A). T i j = T j i) \<longleftrightarrow> is_symmetric A)
           \<and> (\<forall>i<fst (shape A). 1 \<le> A_loop_of (fst (shape A)) A i i)"
proof -
  let ?N = "fst (shape A)"
  let ?a = "A_loop_of ?N A"
  let ?T = "sym_transition ?N ?a"
  have iff: "?T i j = ?T j i \<longleftrightarrow> entry A i j = entry A j i" if i: "i < ?N" and j: "j < ?N" for i j
  proof -
    have "0 < sqrt (\<Sum>l<?N. ?a l i)" "0 < sqrt (\<Sum>l<?N. ?a l j)"
      using degree_ge_1 [OF assms(2) i] degree_ge_1 [OF assms(2) j]
      by (simp_all add: col_sums_def)
    then have "?T i j = ?T j i \<longleftrightarrow> ?a i j = ?a j i"
      by (simp add: sym_transition_finite [OF assms(2) i j] sym_transition_finite [OF assms(2) j i]
          field_simps)
    also have "\<dots> \<longleftrightarrow> entry A i j = entry A j i"
      by (auto simp: A_loop_of_def eye_def)
    finally show ?thesis .
  qed
  have "(\<forall>i<?N. \<forall>j<?N. ?T i j = ?T j i) \<longleftrightarrow> is_symmetric A"
    using iff by (auto simp: is_symmetric_def)
  moreover have "\<forall>i<?N. 1 \<le> ?a i i"
    using A_loop_diag [OF assms(2)] by simp
  ultimately show ?thesis
    using transition_builder_square [OF assms(1)] by simp
qed

theorem transition_symmetric_iff_witness:
  "\<exists>T. transition_builder K2 = Inr T \<and> T 0 1 = T 1 0 \<and> 1 \<le> A_loop_of 2 K2 0 0"
  using transition_symmetric_iff [of K2] K2_valid
  by (auto simp: K2_shape)

text \<open>
  Claim C8, as the code has it. On a non-negative matrix the renormalization is
  idempotent: applied twice it gives what it gives applied once. A column with a positive
  sum sums to \<open>1\<close> after the first application; a column that sums to zero does not sum
  to \<open>1\<close> after the first application.
\<close>

theorem renormalize_idempotent_nonneg:
  assumes "\<forall>i<N. \<forall>j<N. 0 \<le> S i j"
  shows "(\<forall>i<N. \<forall>j<N. renormalize N (renormalize N (\<lambda>i j. Fin (S i j))) i j
                        = renormalize N (\<lambda>i j. Fin (S i j)) i j)
       \<and> (\<forall>j<N. 0 < (\<Sum>k<N. S k j) \<longrightarrow>
                 fl_sum N (\<lambda>i. renormalize N (\<lambda>i j. Fin (S i j)) i j) = Fin 1)
       \<and> (\<forall>j<N. (\<Sum>k<N. S k j) = 0 \<longrightarrow>
                 fl_sum N (\<lambda>i. renormalize N (\<lambda>i j. Fin (S i j)) i j) \<noteq> Fin 1)"
proof -
  let ?R = "renormalize N (\<lambda>i j. Fin (S i j))"
  have pos: "fl_sum N (\<lambda>i. ?R i j) = Fin 1" if "0 < (\<Sum>k<N. S k j)" for j
  proof -
    have "fl_sum N (\<lambda>i. ?R i j) = fl_sum N (\<lambda>i. Fin (S i j / (\<Sum>k<N. S k j)))"
      using that by (intro fl_sum_cong) (simp add: renormalize_nonzero_sum)
    also have "\<dots> = Fin ((\<Sum>i<N. S i j) / (\<Sum>k<N. S k j))"
      by (simp add: fl_sum_Fin sum_divide_distrib [symmetric])
    finally show ?thesis using that by simp
  qed
  have zero: "?R i j = Fin 0" if "(\<Sum>k<N. S k j) = 0" "i < N" "j < N" for i j
  proof -
    have "\<forall>k\<in>{..<N}. S k j = 0"
      using assms that(1,3) by (subst (asm) sum_nonneg_eq_0_iff) simp_all
    with that show ?thesis by (simp add: renormalize_zero_sum)
  qed
  have notone: "fl_sum N (\<lambda>i. ?R i j) \<noteq> Fin 1" if "(\<Sum>k<N. S k j) = 0" for j
    using that by (intro fl_sum_not_one) (simp add: renormalize_zero_sum)
  have idem: "renormalize N ?R i j = ?R i j" if i: "i < N" and j: "j < N" for i j
  proof (cases "(\<Sum>k<N. S k j) = 0")
    case True
    show ?thesis
      using zero [OF True i j] by (simp add: renormalize_def [of N ?R])
  next
    case False
    have "0 \<le> (\<Sum>k<N. S k j)"
      using assms j by (intro sum_nonneg) simp
    with False have p: "0 < (\<Sum>k<N. S k j)" by simp
    show ?thesis
      using pos [OF p] p by (simp add: renormalize_def [of N ?R] renormalize_nonzero_sum)
  qed
  from pos notone idem show ?thesis by blast
qed

theorem renormalize_idempotent_nonneg_witness:
  "renormalize 2 (renormalize 2 (\<lambda>i j. Fin (if j = 0 then 0 else 3))) 1 1 = Fin (1 / 2)
   \<and> renormalize 2 (renormalize 2 (\<lambda>i j. Fin (if j = 0 then 0 else 3))) 0 0
       = renormalize 2 (\<lambda>i j. Fin (if j = 0 then 0 else 3)) 0 0
   \<and> fl_sum 2 (\<lambda>i. renormalize 2 (\<lambda>i j. Fin (if j = 0 then 0 else 3)) i 1) = Fin 1
   \<and> fl_sum 2 (\<lambda>i. renormalize 2 (\<lambda>i j. Fin (if j = 0 then 0 else 3)) i 0) \<noteq> Fin 1"
  using renormalize_idempotent_nonneg [where N = 2 and S = "\<lambda>i j. if j = 0 then 0 else 3"]
  by (simp add: renormalize_def eval_nat_numeral)

text \<open>
  Claim C8 as stated fails: after one application the zero column of this matrix sums to
  \<open>0\<close>, not to \<open>1\<close>, while its other column sums to \<open>1\<close>.
\<close>

theorem renormalize_twice_counterexample:
  "column_sum (to_dense 2 (renormalize 2 (\<lambda>i j. Fin (if j = 0 then 0 else 1)))) 0 = Fin 0
   \<and> column_sum (to_dense 2 (renormalize 2 (\<lambda>i j. Fin (if j = 0 then 0 else 1)))) 1 = Fin 1"
  by (simp add: renormalize_def column_sum_def to_dense_def eval_nat_numeral)

text \<open>
  Claim C9. For a square non-negative \<open>A\<close> and \<open>0 < alpha \<le> 1\<close> the diffusion stage
  returns \<open>S\<close> with every diagonal entry at least \<open>alpha\<close>; hence for \<open>eps \<le> alpha\<close>
  every column of the sparsified matrix keeps a nonzero entry. Symmetry of \<open>A\<close> is not
  needed.
\<close>

theorem ppr_diagonal_ge_alpha:
  assumes "is_square A" and "is_nonneg A" and "0 < alpha" "alpha \<le> 1"
  shows "\<exists>S. diffusion A alpha = Inr S
           \<and> (\<forall>i<fst (shape A). alpha \<le> S i i)
           \<and> (eps \<le> alpha \<longrightarrow> (\<forall>j<fst (shape A). \<exists>i<fst (shape A). sparsify eps S i j \<noteq> 0))"
proof -
  obtain S where S: "diffusion A alpha = Inr S" and diag: "\<forall>i<fst (shape A). alpha \<le> S i i"
    by (rule diffusion_facts [OF assms])
  have "\<exists>i<fst (shape A). sparsify eps S i j \<noteq> 0" if "eps \<le> alpha" "j < fst (shape A)" for j
  proof -
    have "alpha \<le> S j j" using diag that(2) by simp
    with that(1) assms(3) have "sparsify eps S j j \<noteq> 0"
      by (simp add: sparsify_eq)
    with that(2) show ?thesis by blast
  qed
  with S diag show ?thesis by blast
qed

theorem ppr_diagonal_ge_alpha_witness:
  "\<exists>S. diffusion K2 (1 / 2) = Inr S \<and> 1 / 2 \<le> S 0 0 \<and> 1 / 2 \<le> S 1 1
        \<and> (\<exists>i<2. sparsify (1 / 10) S i 0 \<noteq> 0)"
  using ppr_diagonal_ge_alpha [of K2 "1 / 2" "1 / 10"] K2_valid
  by (auto simp: K2_shape)

text \<open>
  Claim C10. In a column of \<open>S_tilde\<close> with a positive sum, the renormalization divides
  every entry by that sum: the result is nonzero exactly where \<open>S_tilde\<close> is.
\<close>

theorem renormalize_keeps_pattern:
  assumes "0 < (\<Sum>k<N. S k j)"
  shows "renormalize N (\<lambda>i j. Fin (S i j)) i j = Fin (S i j / (\<Sum>k<N. S k j))
       \<and> (S i j / (\<Sum>k<N. S k j) \<noteq> 0 \<longleftrightarrow> S i j \<noteq> 0)"
  using assms by (simp add: renormalize_nonzero_sum)

theorem renormalize_keeps_pattern_witness:
  "0 < (\<Sum>k<2. (if k = (0::nat) then 2 else 0 :: real))
   \<and> renormalize 2 (\<lambda>i j. Fin (if i = 0 then 2 else 0)) 0 0 = Fin 1
   \<and> renormalize 2 (\<lambda>i j. Fin (if i = 0 then 2 else 0)) 1 0 = Fin 0"
  using renormalize_keeps_pattern [where N = 2 and S = "\<lambda>i j. if i = 0 then 2 else 0" and i = 0 and j = 0]
    renormalize_keeps_pattern [where N = 2 and S = "\<lambda>i j. if i = 0 then 2 else 0" and i = 1 and j = 0]
  by (simp add: eval_nat_numeral)

end
